theory Spec2Isabelle
  imports Main "HOL-Library.Word"
begin

unbundle bit_operations_syntax

section \<open>Data model\<close>

text \<open>
  Go's \<open>byte\<close> and \<open>uint64\<close> are machine words; a \<open>[]byte\<close> is modelled by its
  contents, a list of bytes. A run-time panic is a value: every operation that can reach a
  slice store or an allocation returns \<open>panic + 'a\<close>, with \<open>Inl\<close> for the panic.
\<close>

type_synonym byte = "8 word"
type_synonym uint64 = "64 word"

datatype panic = IndexOutOfRange | SliceBoundsOutOfRange | MakesliceLenOutOfRange

definition LeafType :: byte where
  "LeafType = 0"

definition ParentType :: byte where
  "ParentType = 1"

definition RootType :: byte where
  "RootType = 2"

definition Hypercore :: string where
  "Hypercore = ''hypercore''"

text \<open>The conversion \<open>[]byte(s)\<close> of an ASCII string constant.\<close>

definition bytes_of_string :: "string \<Rightarrow> byte list" where
  "bytes_of_string s = map of_char s"

record TreeNode =
  Index :: uint64
  Hash :: "byte list"
  Size :: uint64

section \<open>The hash primitive\<close>

text \<open>
  \<open>blake2b.New256()\<close> comes from an external package. The functions below take the
  digest function \<open>H\<close> of the primitive as a parameter. The streaming object is modelled
  by the bytes written to it since it was created or reset: \<open>Write\<close> appends,
  \<open>Reset\<close> forgets, and \<open>hash.Sum(b)\<close> returns \<open>b\<close> followed by the digest of
  what was written (the contract of Go's \<open>hash.Hash\<close>). The same accumulator models
  any \<open>io.Writer\<close> that collects its input, such as \<open>bytes.Buffer\<close>.
\<close>

type_synonym digest_fn = "byte list \<Rightarrow> byte list"
type_synonym writer = "byte list"

definition New256 :: writer where
  "New256 = []"

definition Write :: "writer \<Rightarrow> byte list \<Rightarrow> writer" where
  "Write w p = w @ p"

definition Reset :: "writer \<Rightarrow> writer" where
  "Reset w = []"

definition hash_Sum :: "digest_fn \<Rightarrow> writer \<Rightarrow> byte list \<Rightarrow> byte list" where
  "hash_Sum H w b = b @ H w"

section \<open>Go builtins on slices\<close>

text \<open>
  \<open>copy(dst, src)\<close> overwrites the first \<open>min(len(dst), len(src))\<close> elements of
  \<open>dst\<close>; the result here is the new contents of \<open>dst\<close>.
\<close>

definition copy :: "byte list \<Rightarrow> byte list \<Rightarrow> byte list" where
  "copy dst src =
     (let n = min (length dst) (length src) in take n src @ drop n dst)"

text \<open>
  A slice \<open>arr[lo:hi]\<close> shares the array it was cut from. Such a slice is kept as the
  pair \<open>(lo, hi)\<close>; \<open>slice_of\<close> reads its contents and \<open>copy_at\<close> is the array
  after \<open>copy(arr[lo:hi], src)\<close>. A \<open>nil\<close> slice is \<open>None\<close>.
\<close>

definition slice_of :: "byte list \<Rightarrow> (nat \<times> nat) option \<Rightarrow> byte list" where
  "slice_of arr s = (case s of None \<Rightarrow> [] | Some (lo, hi) \<Rightarrow> take (hi - lo) (drop lo arr))"

definition copy_at :: "byte list \<Rightarrow> nat \<Rightarrow> nat \<Rightarrow> byte list \<Rightarrow> byte list" where
  "copy_at arr lo hi src =
     take lo arr @ copy (take (hi - lo) (drop lo arr)) src @ drop hi arr"

section \<open>Varint\<close>

text \<open>
  Modelled from the spec: \<open>binary.PutUvarint\<close> and \<open>binary.MaxVarintLen64\<close> belong to
  Go's \<open>encoding/binary\<close> package and are not among the sources of the repository.
  Section 4.1 of the spec fixes the encoding as the standard varint: little-endian
  base-128, a continuation bit per byte, minimal length. \<open>PutUvarint\<close> is that encoder
  as a loop over the 64-bit value, storing into the caller's buffer from index 0 and
  returning the number of bytes stored; a store outside the buffer panics, as a Go slice
  store does. \<open>MaxVarintLen64\<close> is the longest encoding of a 64-bit value, 10 bytes.
\<close>

definition MaxVarintLen64 :: nat where
  "MaxVarintLen64 = 10"

function PutUvarint_from :: "byte list \<Rightarrow> nat \<Rightarrow> uint64 \<Rightarrow> panic + (byte list \<times> nat)" where
  "PutUvarint_from buf i x =
     (if 0x80 \<le> x then
        (if i < length buf
         then PutUvarint_from (buf[i := ucast x OR 0x80]) (i + 1) (drop_bit 7 x)
         else Inl IndexOutOfRange)
      else
        (if i < length buf
         then Inr (buf[i := ucast x], i + 1)
         else Inl IndexOutOfRange))"
  by pat_completeness auto
termination
  by (relation "measure (\<lambda>(buf, i, x). unat x)")
     (auto simp: drop_bit_eq_div unat_div word_le_nat_alt)

declare PutUvarint_from.simps [simp del]

definition PutUvarint :: "byte list \<Rightarrow> uint64 \<Rightarrow> panic + (byte list \<times> nat)" where
  "PutUvarint buf x = PutUvarint_from buf 0 x"

text \<open>
  \<open>WriteUvarint\<close> and \<open>writeUvarint\<close> of the source have the same body: a zeroed
  array of \<open>MaxVarintLen64\<close> bytes, \<open>PutUvarint\<close> into it, and the first \<open>n\<close> bytes
  written to \<open>w\<close>.
\<close>

definition WriteUvarint :: "writer \<Rightarrow> uint64 \<Rightarrow> panic + writer" where
  "WriteUvarint w x =
     (let buf = replicate MaxVarintLen64 0 in
      case PutUvarint buf x of
        Inl e \<Rightarrow> Inl e
      | Inr (buf', n) \<Rightarrow> Inr (Write w (take n buf')))"

definition writeUvarint :: "writer \<Rightarrow> uint64 \<Rightarrow> panic + writer" where
  "writeUvarint w x =
     (let buf = replicate MaxVarintLen64 0 in
      case PutUvarint buf x of
        Inl e \<Rightarrow> Inl e
      | Inr (buf', n) \<Rightarrow> Inr (Write w (take n buf')))"

subsection \<open>The encoding as the spec words it\<close>

text \<open>
  The spec's description, independent of any buffer: \<open>uvarint n\<close> emits the 7 low bits
  of \<open>n\<close> with the high bit set while more than 7 bits remain, and the last group with
  the high bit clear. \<open>minimal_uvarint bs n\<close> says declaratively that \<open>bs\<close> is a
  well-formed encoding (high bit set on all bytes but the last), that its 7-bit groups
  read little-endian give \<open>n\<close>, and that it carries no padding: the last byte is zero
  only in the one-byte encoding of 0.
\<close>

function uvarint :: "nat \<Rightarrow> byte list" where
  "uvarint n =
     (if n < 128 then [of_nat n] else of_nat (n mod 128 + 128) # uvarint (n div 128))"
  by pat_completeness auto
termination
  by (relation "measure id") auto

declare uvarint.simps [simp del]

fun uvarint_value :: "byte list \<Rightarrow> nat" where
  "uvarint_value [] = 0"
| "uvarint_value (b # bs) = unat (take_bit 7 b) + 128 * uvarint_value bs"

definition continuation_ok :: "byte list \<Rightarrow> bool" where
  "continuation_ok bs =
     (bs \<noteq> [] \<and> list_all (\<lambda>b. bit b 7) (butlast bs) \<and> \<not> bit (last bs) 7)"

definition minimal_uvarint :: "byte list \<Rightarrow> nat \<Rightarrow> bool" where
  "minimal_uvarint bs n =
     (continuation_ok bs \<and> uvarint_value bs = n \<and> (length bs = 1 \<or> last bs \<noteq> 0))"

section \<open>Node hasher\<close>

definition Data :: "digest_fn \<Rightarrow> byte list \<Rightarrow> panic + byte list" where
  "Data H data =
     (let hash = New256;
          hash = Write hash [LeafType]
      in case WriteUvarint hash (of_nat (length data)) of
           Inl e \<Rightarrow> Inl e
         | Inr hash \<Rightarrow>
             (let hash = Write hash data
              in Inr (hash_Sum H hash [])))"

definition Parent :: "digest_fn \<Rightarrow> TreeNode \<Rightarrow> TreeNode \<Rightarrow> panic + byte list" where
  "Parent H a b =
     (let (a, b) = (if Index a > Index b then (b, a) else (a, b));
          out = replicate 32 (0 :: byte);
          parentType = [ParentType];
          combinedSize = replicate MaxVarintLen64 0
      in case PutUvarint combinedSize (Size a + Size b) of
           Inl e \<Rightarrow> Inl e
         | Inr (combinedSize, n) \<Rightarrow>
             (let buffers = [parentType, take n combinedSize, Hash a, Hash b];
                  hash = foldl Write New256 buffers
              in Inr (hash_Sum H hash (take 0 out))))"

section \<open>Root aggregator\<close>

fun Tree_roots :: "writer \<Rightarrow> TreeNode list \<Rightarrow> panic + writer" where
  "Tree_roots hash [] = Inr hash"
| "Tree_roots hash (r # rs) =
     (let hash = Write hash (Hash r)
      in case writeUvarint hash (Index r) of
           Inl e \<Rightarrow> Inl e
         | Inr hash \<Rightarrow>
             (case writeUvarint hash (Size r) of
                Inl e \<Rightarrow> Inl e
              | Inr hash \<Rightarrow> Tree_roots hash rs))"

text \<open>The argument \<open>out\<close> is \<open>None\<close> for \<open>nil\<close> and \<open>Some b\<close> for a slice holding \<open>b\<close>.\<close>

definition Tree :: "digest_fn \<Rightarrow> TreeNode list \<Rightarrow> byte list option \<Rightarrow> panic + byte list" where
  "Tree H roots out =
     (let hash = New256;
          hash = Write hash [RootType]
      in case Tree_roots hash roots of
           Inl e \<Rightarrow> Inl e
         | Inr hash \<Rightarrow>
             (let out = (case out of None \<Rightarrow> replicate 32 0 | Some b \<Rightarrow> b)
              in Inr (hash_Sum H hash (take 0 out))))"

section \<open>Discovery key\<close>

definition DiscoveryKey :: "digest_fn \<Rightarrow> byte list \<Rightarrow> byte list" where
  "DiscoveryKey H publicKey =
     (let hash = New256;
          hash = Write hash (bytes_of_string Hypercore);
          hash = Write hash publicKey
      in hash_Sum H hash [])"

section \<open>Namespace derivation\<close>

text \<open>
  The model is of a 64-bit platform: Go's \<open>int\<close> is a 64-bit word read as a signed
  value (\<open>sint\<close>), its arithmetic wraps, and a slice header takes 24 bytes.

  \<open>make([]T, len)\<close> panics (\<open>makeslice: len out of range\<close>) when \<open>len\<close> is negative or
  when the \<open>len\<close> elements of \<open>elemsize\<close> bytes each exceed the allocation ceiling of the
  runtime. The ceiling \<open>maxAlloc\<close> belongs to the Go runtime and depends on the platform
  (\<open>2^48\<close> bytes on 64-bit Linux); the functions below take it as a parameter. An
  allocation within the ceiling yields \<open>len\<close> zero values.
\<close>

type_synonym go_int = "64 word"

definition makeslice :: "nat \<Rightarrow> nat \<Rightarrow> go_int \<Rightarrow> 'a \<Rightarrow> panic + 'a list" where
  "makeslice maxAlloc elemsize n zero =
     (if sint n < 0 \<or> maxAlloc < elemsize * nat (sint n) then Inl MakesliceLenOutOfRange
      else Inr (replicate (nat (sint n)) zero))"

text \<open>
  The loop state is \<open>(ids, buf, ns, hash)\<close>. Every \<open>ids[i]\<close> is a slice of the one
  array \<open>buf\<close>, so \<open>ids\<close> holds index pairs and the digests are copied into \<open>buf\<close>;
  the contents are read off \<open>buf\<close> when the function returns. The bounds \<open>i*32\<close> and
  \<open>(i+1)*32\<close> are computed in \<open>int\<close>; the slice expression panics unless
  \<open>0 \<le> lo \<le> hi \<le> cap(buf)\<close>.
\<close>

type_synonym ns_state = "(nat \<times> nat) option list \<times> byte list \<times> byte list \<times> writer"

definition Namespace_body :: "digest_fn \<Rightarrow> nat \<Rightarrow> ns_state \<Rightarrow> panic + ns_state" where
  "Namespace_body H i s =
     (case s of (ids, buf, ns, hash) \<Rightarrow>
        (let lo = (of_nat i :: go_int) * 32;
             hi = (of_nat i + 1 :: go_int) * 32
         in if sint lo < 0 \<or> sint hi < sint lo \<or> int (length buf) < sint hi
            then Inl SliceBoundsOutOfRange
            else
              (let ids = ids[i := Some (nat (sint lo), nat (sint hi))]
               in if length ns \<le> 32 then Inl IndexOutOfRange
                  else
                    (let ns = ns[32 := of_nat i];
                         hash = Reset hash;
                         hash = Write hash ns;
                         buf = copy_at buf (nat (sint lo)) (nat (sint hi)) (hash_Sum H hash [])
                     in Inr (ids, buf, ns, hash)))))"

fun Namespace_loop :: "digest_fn \<Rightarrow> nat list \<Rightarrow> ns_state \<Rightarrow> panic + ns_state" where
  "Namespace_loop H [] s = Inr s"
| "Namespace_loop H (i # js) s =
     (case Namespace_body H i s of
        Inl e \<Rightarrow> Inl e
      | Inr s' \<Rightarrow> Namespace_loop H js s')"

definition Namespace :: "nat \<Rightarrow> digest_fn \<Rightarrow> byte list \<Rightarrow> go_int \<Rightarrow> panic + byte list list" where
  "Namespace maxAlloc H name count =
     (case makeslice maxAlloc 24 count None of
        Inl e \<Rightarrow> Inl e
      | Inr ids \<Rightarrow>
          (case makeslice maxAlloc 1 (32 * count) 0 of
             Inl e \<Rightarrow> Inl e
           | Inr buf \<Rightarrow>
               (let ns = replicate 33 0;
                    hash = New256;
                    hash = Write hash name;
                    ns = copy ns (hash_Sum H hash [])
                in case Namespace_loop H [0..<length ids] (ids, buf, ns, hash) of
                     Inl e \<Rightarrow> Inl e
                   | Inr (ids, buf, ns, hash) \<Rightarrow> Inr (map (slice_of buf) ids))))"

section \<open>A stand-in digest for concrete instances\<close>

text \<open>
  The theorems hold for every digest function. Where one is needed at a concrete input,
  this 32-byte checksum in the style of Fletcher is used: the sum of the input bytes, the
  sum of the running sums (which depends on the order of the bytes), and 30 zero bytes.
\<close>

definition fletcher_step :: "byte \<Rightarrow> byte \<times> byte \<Rightarrow> byte \<times> byte" where
  "fletcher_step x s = (case s of (a, b) \<Rightarrow> (a + x, b + (a + x)))"

definition fletcher_hash :: digest_fn where
  "fletcher_hash m = (case fold fletcher_step m (0, 0) of (a, b) \<Rightarrow> a # b # replicate 30 0)"

section \<open>The varint written is the encoding of the spec\<close>

lemma unat_drop_bit7: "unat (drop_bit 7 (x::uint64)) = unat x div 128"
  by (simp add: drop_bit_eq_div unat_div)

lemma bit128_nat: "bit (128::nat) n \<longleftrightarrow> n = 7"
proof -
  have "bit (push_bit 7 (1::nat)) n \<longleftrightarrow> n = 7"
    unfolding bit_push_bit_iff bit_1_iff by auto
  then show ?thesis by simp
qed

lemma bit128_byte: "bit (128::byte) n \<longleftrightarrow> n = 7"
proof -
  have "bit (push_bit 7 (1::byte)) n \<longleftrightarrow> n = 7"
    unfolding bit_push_bit_iff bit_1_iff by (auto simp: possible_bit_word)
  then show ?thesis by simp
qed

lemma mod128_plus128: "(n::nat) mod 128 + 128 = take_bit 7 n OR 128"
proof -
  have "take_bit 7 n + 128 = take_bit 7 n OR (128::nat)"
    by (rule disjunctive_add) (auto simp: bit_take_bit_iff bit128_nat)
  then show ?thesis by (simp add: take_bit_eq_mod)
qed

lemma continuation_byte: "(ucast (x::uint64) OR 0x80 :: byte) = of_nat (unat x mod 128 + 128)"
proof -
  have "(of_nat (take_bit 7 (unat x) OR 128) :: byte) = ucast x OR 0x80"
    apply (rule bit_word_eqI)
    apply (simp only: bit_or_iff bit_of_nat_iff bit_take_bit_iff bit128_nat bit128_byte
        bit_ucast_iff bit_unsigned_iff possible_bit_word)
    apply (auto simp: bit_unsigned_iff)
    done
  then show ?thesis by (simp add: mod128_plus128)
qed

lemma high_bit_iff: "bit (b::byte) 7 \<longleftrightarrow> 128 \<le> unat b"
proof -
  have "unat b < 256" using unsigned_less [of b] by simp
  have "bit b 7 \<longleftrightarrow> bit (unat b) 7" by (simp add: bit_unsigned_iff)
  also have "\<dots> \<longleftrightarrow> odd (unat b div 128)" by (simp add: bit_iff_odd)
  also have "\<dots> \<longleftrightarrow> 128 \<le> unat b"
  proof
    assume "odd (unat b div 128)"
    then have "unat b div 128 \<noteq> 0" by (metis even_zero)
    then show "128 \<le> unat b" by (simp add: div_eq_0_iff)
  next
    assume "128 \<le> unat b"
    with \<open>unat b < 256\<close> have "unat b div 128 = 1" by simp
    then show "odd (unat b div 128)" by simp
  qed
  finally show ?thesis .
qed

lemma low_bits: "unat (take_bit 7 (b::byte)) = unat b mod 128"
  by (simp add: take_bit_eq_mod unat_mod)

lemma unat_byte_small: "n < 256 \<Longrightarrow> unat (of_nat n :: byte) = n"
  by (simp add: unat_of_nat)

lemma PutUvarint_from_ok:
  "0 < k \<Longrightarrow> unat x < 2 ^ (7 * k) \<Longrightarrow> i + k \<le> length buf \<Longrightarrow>
   PutUvarint_from buf i x =
     Inr (take i buf @ uvarint (unat x) @ drop (i + length (uvarint (unat x))) buf,
          i + length (uvarint (unat x)))"
proof (induction k arbitrary: buf i x)
  case 0
  then show ?case by simp
next
  case (Suc k)
  show ?case
  proof (cases "0x80 \<le> x")
    case False
    then have small: "unat x < 128" by (simp add: word_le_nat_alt)
    from Suc.prems have i: "i < length buf" by simp
    have "PutUvarint_from buf i x = Inr (buf[i := ucast x], i + 1)"
      using False i by (simp add: PutUvarint_from.simps)
    moreover have "uvarint (unat x) = [ucast x]"
      using small by (simp add: uvarint.simps)
    moreover have "buf[i := ucast x] = take i buf @ [ucast x] @ drop (i + 1) buf"
      using i by (simp add: upd_conv_take_nth_drop)
    ultimately show ?thesis by simp
  next
    case True
    then have big: "128 \<le> unat x" by (simp add: word_le_nat_alt)
    from Suc.prems have i: "i < length buf" by simp
    let ?c = "ucast x OR 0x80 :: byte"
    let ?buf = "buf[i := ?c]"
    have k: "0 < k"
    proof (rule ccontr)
      assume "\<not> 0 < k"
      with Suc.prems big show False by simp
    qed
    have "unat x < 128 * 2 ^ (7 * k)" using Suc.prems(2) by (simp add: power_add)
    then have lt: "unat (drop_bit 7 x) < 2 ^ (7 * k)"
      by (simp add: unat_drop_bit7 less_mult_imp_div_less mult.commute)
    have len: "Suc i + k \<le> length ?buf" using Suc.prems by simp
    note IH = Suc.IH [OF k lt len]
    have enc: "uvarint (unat x) = ?c # uvarint (unat (drop_bit 7 x))"
      using big by (subst uvarint.simps) (simp add: continuation_byte unat_drop_bit7)
    have step: "PutUvarint_from buf i x = PutUvarint_from ?buf (Suc i) (drop_bit 7 x)"
      using True i by (subst PutUvarint_from.simps) simp
    have tk: "take (Suc i) ?buf = take i buf @ [?c]"
      using i by (simp add: take_Suc_conv_app_nth)
    show ?thesis
      unfolding step IH enc tk by simp
  qed
qed

lemma PutUvarint_ok:
  "PutUvarint (replicate MaxVarintLen64 0) x =
     Inr (uvarint (unat x) @ drop (length (uvarint (unat x))) (replicate MaxVarintLen64 0),
          length (uvarint (unat x)))"
proof -
  have "unat x < 2 ^ 64" using unsigned_less [of x] by simp
  also have "(2::nat) ^ 64 \<le> 2 ^ (7 * 10)" by simp
  finally have "unat x < 2 ^ (7 * 10)" .
  then show ?thesis
    unfolding PutUvarint_def
    using PutUvarint_from_ok [of 10 x 0 "replicate MaxVarintLen64 0"]
    by (simp add: MaxVarintLen64_def)
qed

lemma WriteUvarint_eq: "WriteUvarint w x = Inr (w @ uvarint (unat x))"
  by (simp add: WriteUvarint_def PutUvarint_ok Write_def)

lemma writeUvarint_eq: "writeUvarint w x = Inr (w @ uvarint (unat x))"
  by (simp add: writeUvarint_def PutUvarint_ok Write_def)


lemma uvarint_small: "n < 128 \<Longrightarrow> uvarint n = [of_nat n]"
  by (simp add: uvarint.simps)

lemma uvarint_big:
  "128 \<le> n \<Longrightarrow> uvarint n = of_nat (n mod 128 + 128) # uvarint (n div 128)"
  by (subst uvarint.simps) simp

lemma uvarint_nonempty: "uvarint n \<noteq> []"
  by (subst uvarint.simps) simp

lemma continuation_ok_single: "continuation_ok [b] \<longleftrightarrow> \<not> bit b 7"
  by (simp add: continuation_ok_def)

lemma continuation_ok_Cons:
  "bs \<noteq> [] \<Longrightarrow> continuation_ok (b # bs) \<longleftrightarrow> bit b 7 \<and> continuation_ok bs"
  by (auto simp: continuation_ok_def)

lemma unat_continuation: "unat (of_nat (n mod 128 + 128) :: byte) = n mod 128 + 128"
proof -
  have "n mod 128 + 128 < 256" by simp
  then show ?thesis by (rule unat_byte_small)
qed

lemma uvarint_continuation_ok: "continuation_ok (uvarint n)"
proof (induction n rule: uvarint.induct)
  case (1 n)
  show ?case
  proof (cases "n < 128")
    case True
    then show ?thesis
      by (simp add: uvarint_small continuation_ok_single high_bit_iff unat_byte_small)
  next
    case False
    then have big: "128 \<le> n" by simp
    have "bit (of_nat (n mod 128 + 128) :: byte) 7"
      unfolding high_bit_iff unat_continuation by simp
    with 1 False show ?thesis
      by (simp add: uvarint_big [OF big] continuation_ok_Cons uvarint_nonempty)
  qed
qed

lemma uvarint_value_uvarint: "uvarint_value (uvarint n) = n"
proof (induction n rule: uvarint.induct)
  case (1 n)
  show ?case
  proof (cases "n < 128")
    case True
    then show ?thesis
      by (simp add: uvarint_small low_bits unat_byte_small)
  next
    case False
    then have big: "128 \<le> n" by simp
    have "unat (take_bit 7 (of_nat (n mod 128 + 128) :: byte)) = n mod 128"
      unfolding low_bits unat_continuation by simp
    with 1 False show ?thesis
      by (simp add: uvarint_big [OF big])
  qed
qed

lemma uvarint_no_padding: "length (uvarint n) = 1 \<or> last (uvarint n) \<noteq> 0"
proof (induction n rule: uvarint.induct)
  case (1 n)
  show ?case
  proof (cases "n < 128")
    case True
    then show ?thesis by (simp add: uvarint_small)
  next
    case False
    then have big: "128 \<le> n" by simp
    show ?thesis
    proof (cases "n div 128 < 128")
      case True
      have "n div 128 \<noteq> 0" using big by (simp add: div_eq_0_iff)
      moreover have "n div 128 < 256" using True by simp
      ultimately have "(of_nat (n div 128) :: byte) \<noteq> 0"
        by (metis unat_byte_small unat_0)
      then show ?thesis
        by (simp add: uvarint_big [OF big] uvarint_small [OF True])
    next
      case F2: False
      then have "length (uvarint (n div 128)) \<noteq> 1"
        by (simp add: uvarint_big uvarint_nonempty)
      with 1 False show ?thesis
        by (simp add: uvarint_big [OF big] uvarint_nonempty)
    qed
  qed
qed

lemma minimal_uvarint_uvarint: "minimal_uvarint (uvarint n) n"
  using uvarint_no_padding [of n]
  by (simp add: minimal_uvarint_def uvarint_continuation_ok uvarint_value_uvarint)

lemma byte_from_parts:
  "128 \<le> unat (b::byte) \<Longrightarrow> of_nat (unat b mod 128 + 128) = b"
proof -
  assume a: "128 \<le> unat b"
  have "unat b < 256" using unsigned_less [of b] by simp
  have "unat b mod 128 = (unat b - 128) mod 128"
    using a by (simp add: le_mod_geq)
  also have "\<dots> = unat b - 128"
    using \<open>unat b < 256\<close> by (intro mod_less) arith
  finally have "unat b mod 128 + 128 = unat b"
    using a by simp
  moreover have "(of_nat (unat b) :: byte) = b" by simp
  ultimately show ?thesis by (simp only:)
qed

lemma uvarint_value_pos:
  "continuation_ok bs \<Longrightarrow> last bs \<noteq> 0 \<Longrightarrow> 0 < uvarint_value bs"
proof (induction bs)
  case Nil
  then show ?case by (simp add: continuation_ok_def)
next
  case (Cons b bs)
  show ?case
  proof (cases "bs = []")
    case True
    with Cons.prems have "\<not> bit b 7" "b \<noteq> 0"
      by (simp_all add: continuation_ok_single)
    then have "unat b < 128" "unat b \<noteq> 0"
      by (simp_all add: high_bit_iff unat_eq_0)
    then show ?thesis using True by (simp add: low_bits)
  next
    case False
    with Cons show ?thesis by (simp add: continuation_ok_Cons)
  qed
qed

lemma minimal_uvarint_unique: "minimal_uvarint bs n \<Longrightarrow> bs = uvarint n"
proof (induction bs arbitrary: n)
  case Nil
  then show ?case by (simp add: minimal_uvarint_def continuation_ok_def)
next
  case (Cons b bs)
  show ?case
  proof (cases "bs = []")
    case True
    with Cons.prems have nb: "\<not> bit b 7" and v: "unat (take_bit 7 b) = n"
      by (simp_all add: minimal_uvarint_def continuation_ok_single)
    from nb have "unat b < 128" by (simp add: high_bit_iff)
    with v have "n = unat b" "n < 128" by (simp_all add: low_bits)
    then show ?thesis using True by (simp add: uvarint_small)
  next
    case False
    with Cons.prems have hb: "bit b 7" and ok: "continuation_ok bs"
      and v: "unat b mod 128 + 128 * uvarint_value bs = n" and l: "last bs \<noteq> 0"
      by (auto simp: minimal_uvarint_def continuation_ok_Cons low_bits)
    have pos: "0 < uvarint_value bs" by (rule uvarint_value_pos [OF ok l])
    have m: "n mod 128 = unat b mod 128" using v by auto
    have d: "n div 128 = uvarint_value bs" using v by auto
    have big: "128 \<le> n" using v pos by simp
    have "minimal_uvarint bs (n div 128)"
      using ok l d by (simp add: minimal_uvarint_def)
    then have "bs = uvarint (n div 128)" by (rule Cons.IH)
    moreover have "of_nat (n mod 128 + 128) = b"
      unfolding m using hb by (simp only: byte_from_parts high_bit_iff)
    ultimately show ?thesis by (simp add: uvarint_big [OF big])
  qed
qed

lemma minimal_uvarint_iff: "minimal_uvarint bs n \<longleftrightarrow> bs = uvarint n"
  using minimal_uvarint_unique minimal_uvarint_uvarint by blast

section \<open>The byte streams that are hashed\<close>

lemma Data_eq:
  "Data H data = Inr (H ([0] @ uvarint (unat (of_nat (length data) :: uint64)) @ data))"
  by (simp add: Data_def New256_def Write_def WriteUvarint_eq hash_Sum_def LeafType_def)

lemma Parent_eq:
  "Parent H a b =
     Inr (H ([1] @ uvarint (unat (Size a + Size b)) @
             (if Index a > Index b then Hash b @ Hash a else Hash a @ Hash b)))"
  by (simp add: Parent_def PutUvarint_ok New256_def Write_def hash_Sum_def ParentType_def
      add.commute)

lemma Tree_roots_eq:
  "Tree_roots hash roots =
     Inr (hash @ concat (map (\<lambda>r. Hash r @ uvarint (unat (Index r)) @ uvarint (unat (Size r))) roots))"
  by (induction roots arbitrary: hash) (simp_all add: Write_def writeUvarint_eq)

lemma Tree_eq:
  "Tree H roots out =
     Inr (H ([2] @ concat (map (\<lambda>r. Hash r @ uvarint (unat (Index r)) @ uvarint (unat (Size r))) roots)))"
  by (simp add: Tree_def Tree_roots_eq New256_def Write_def hash_Sum_def RootType_def)

section \<open>The namespace loop\<close>

lemma copy_same_length: "length dst = length src \<Longrightarrow> copy dst src = src"
  by (simp add: copy_def)

lemma copy_seed:
  "length d = 32 \<Longrightarrow> copy (replicate 33 0) d = d @ [0]"
  by (simp add: copy_def Let_def)

lemma copy_at_block:
  "length src = 32 \<Longrightarrow> (i + 1) * 32 \<le> length arr \<Longrightarrow>
   copy_at arr (i * 32) ((i + 1) * 32) src = take (i * 32) arr @ src @ drop ((i + 1) * 32) arr"
  by (simp add: copy_at_def copy_same_length)

lemma set_index_byte:
  "length ns = 33 \<Longrightarrow> ns[32 := v] = take 32 ns @ [v]"
  by (simp add: upd_conv_take_nth_drop)

lemma sint_of_nat_go: "sint (of_nat m :: go_int) = signed_take_bit 63 (int m)"
  by (simp add: signed_of_nat)

lemma sint_of_nat_small: "m < 2 ^ 63 \<Longrightarrow> sint (of_nat m :: go_int) = int m"
proof -
  assume m: "m < 2 ^ 63"
  have "sint (of_nat m :: go_int) = signed_take_bit 63 (int m)"
    by (rule sint_of_nat_go)
  also have "\<dots> = int m"
    using m by (simp add: signed_take_bit_int_eq_self_iff)
  finally show ?thesis .
qed

lemma go_int_nonneg:
  assumes "0 \<le> sint (c :: go_int)"
  obtains n where "sint c = int n" and "c = of_nat n" and "n < 2 ^ 63"
proof -
  from assms obtain n where n: "sint c = int n"
    using zero_le_imp_eq_int by blast
  have "int n < 2 ^ 63" using sint_lt [of c] n by simp
  then have "n < 2 ^ 63" by simp
  moreover have "c = of_nat n"
  proof -
    have "c = of_int (sint c)" by simp
    also have "\<dots> = of_int (int n)" by (simp only: n)
    also have "\<dots> = of_nat n" by simp
    finally show ?thesis .
  qed
  ultimately show ?thesis using n that by blast
qed

lemma sint_lo: "(i + 1) * 32 < 2 ^ 63 \<Longrightarrow> sint ((of_nat i :: go_int) * 32) = int (i * 32)"
proof -
  assume "(i + 1) * 32 < 2 ^ 63"
  then have s: "i * 32 < 2 ^ 63" by simp
  have e: "(of_nat i :: go_int) * 32 = of_nat (i * 32)" by simp
  show ?thesis unfolding e by (rule sint_of_nat_small [OF s])
qed

lemma sint_hi:
  "(i + 1) * 32 < 2 ^ 63 \<Longrightarrow> sint ((of_nat i + 1 :: go_int) * 32) = int ((i + 1) * 32)"
proof -
  assume s: "(i + 1) * 32 < 2 ^ 63"
  have e: "(of_nat i + 1 :: go_int) * 32 = of_nat ((i + 1) * 32)" by simp
  show ?thesis unfolding e by (rule sint_of_nat_small [OF s])
qed

lemma sint_times_32_small:
  "32 * n < 2 ^ 63 \<Longrightarrow> sint (32 * (of_nat n :: go_int)) = int (32 * n)"
proof -
  assume s: "32 * n < 2 ^ 63"
  have e: "32 * (of_nat n :: go_int) = of_nat (32 * n)" by simp
  show ?thesis unfolding e by (rule sint_of_nat_small [OF s])
qed

lemma sint_times_32_wraps:
  assumes lo: "2 ^ 63 \<le> 32 * n" and hi: "32 * n < 2 ^ 64"
  shows "sint (32 * (of_nat n :: go_int)) < 0"
proof -
  let ?k = "int (32 * n)"
  have e: "32 * (of_nat n :: go_int) = of_nat (32 * n)" by simp
  have k1: "2 ^ 63 \<le> ?k" using lo by (metis of_nat_le_iff of_nat_numeral of_nat_power)
  have k2: "?k < 2 ^ 64" using hi by (metis of_nat_less_iff of_nat_numeral of_nat_power)
  have "sint (of_nat (32 * n) :: go_int) = signed_take_bit 63 ?k"
    by (rule sint_of_nat_go)
  also have "\<dots> \<le> ?k - 2 ^ Suc 63"
    using k1 by (rule signed_take_bit_int_less_eq)
  also have "\<dots> < 0" using k2 by simp
  finally show ?thesis unfolding e .
qed

lemma Namespace_body_ok:
  assumes H32: "\<forall>m. length (H m) = 32"
    and ns: "length ns = 33"
    and buf: "(i + 1) * 32 \<le> length buf"
    and small: "(i + 1) * 32 < 2 ^ 63"
  shows "Namespace_body H i (ids, buf, ns, hash) =
     Inr (ids[i := Some (i * 32, (i + 1) * 32)],
          take (i * 32) buf @ H (take 32 ns @ [of_nat i]) @ drop ((i + 1) * 32) buf,
          take 32 ns @ [of_nat i],
          take 32 ns @ [of_nat i])"
proof -
  have cp: "copy_at buf (i * 32) ((i + 1) * 32) (H (take 32 ns @ [of_nat i])) =
      take (i * 32) buf @ H (take 32 ns @ [of_nat i]) @ drop ((i + 1) * 32) buf"
    using H32 buf by (intro copy_at_block) simp_all
  have lo: "sint ((of_nat i :: go_int) * 32) = int (i * 32)" by (rule sint_lo [OF small])
  have hi: "sint ((of_nat i + 1 :: go_int) * 32) = int ((i + 1) * 32)" by (rule sint_hi [OF small])
  have b: "\<not> int (length buf) < int ((i + 1) * 32)" using buf by simp
  show ?thesis
    unfolding Namespace_body_def Let_def lo hi
    using ns b cp
    by (simp add: Reset_def Write_def hash_Sum_def set_index_byte [OF ns] del: of_nat_mult of_nat_add)
qed

lemma Namespace_loop_ok:
  assumes H32: "\<forall>m. length (H m) = 32" and small: "32 * n < 2 ^ 63"
  shows "n - k = d \<Longrightarrow> k \<le> n \<Longrightarrow> length ns = 33 \<Longrightarrow> length buf = 32 * n \<Longrightarrow> length ids = n \<Longrightarrow>
     \<exists>ns' hash'. Namespace_loop H [k..<n] (ids, buf, ns, hash) =
        Inr (take k ids @ map (\<lambda>i. Some (i * 32, (i + 1) * 32)) [k..<n],
             take (32 * k) buf @ concat (map (\<lambda>i. H (take 32 ns @ [of_nat i])) [k..<n]),
             ns', hash')"
proof (induction d arbitrary: k ids buf ns hash)
  case 0
  then have "k = n" by simp
  with 0 show ?case by simp
next
  case (Suc d)
  then have kn: "k < n" by simp
  let ?ns = "take 32 ns @ [of_nat k :: byte]"
  let ?D = "H ?ns"
  let ?ids = "ids[k := Some (k * 32, (k + 1) * 32)]"
  let ?buf = "take (k * 32) buf @ ?D @ drop ((k + 1) * 32) buf"
  have D32: "length ?D = 32" using H32 by simp
  have fits: "(k + 1) * 32 \<le> length buf" using kn Suc.prems by simp
  have sm: "(k + 1) * 32 < 2 ^ 63" using kn small by simp
  have body: "Namespace_body H k (ids, buf, ns, hash) = Inr (?ids, ?buf, ?ns, ?ns)"
    by (rule Namespace_body_ok [OF H32 \<open>length ns = 33\<close> fits sm])
  have l1: "length ?ns = 33" using \<open>length ns = 33\<close> by simp
  have l2: "length ?buf = 32 * n" using fits Suc.prems D32 by simp
  have l3: "length ?ids = n" using Suc.prems by simp
  have d: "n - Suc k = d" using Suc.prems by simp
  from Suc.IH [OF d _ l1 l2 l3, of ?ns] kn
  obtain ns' hash' where IH:
    "Namespace_loop H [Suc k..<n] (?ids, ?buf, ?ns, ?ns) =
       Inr (take (Suc k) ?ids @ map (\<lambda>i. Some (i * 32, (i + 1) * 32)) [Suc k..<n],
            take (32 * Suc k) ?buf @ concat (map (\<lambda>i. H (take 32 ?ns @ [of_nat i])) [Suc k..<n]),
            ns', hash')"
    by auto
  have t32: "take 32 ?ns = take 32 ns" using \<open>length ns = 33\<close> by simp
  have ti: "take (Suc k) ?ids = take k ids @ [Some (k * 32, (k + 1) * 32)]"
    using kn Suc.prems by (simp add: take_Suc_conv_app_nth)
  have tb: "take (32 * Suc k) ?buf = take (32 * k) buf @ ?D"
    using fits D32 by (simp add: mult.commute)
  have "Namespace_loop H [k..<n] (ids, buf, ns, hash) =
      Namespace_loop H [Suc k..<n] (?ids, ?buf, ?ns, ?ns)"
    using kn body by (simp add: upt_conv_Cons)
  also note IH
  finally show ?case
    unfolding t32 ti tb using kn by (simp add: upt_conv_Cons)
qed

lemma concat_block:
  assumes D32: "\<forall>i. length (D i) = (32::nat)"
  shows "i < n \<Longrightarrow> take 32 (drop (i * 32) (concat (map D [0..<n]))) = D i"
proof (induction n)
  case 0
  then show ?case by simp
next
  case (Suc n)
  have len: "length (concat (map D [0..<n])) = 32 * n"
    using D32 by (induction n) simp_all
  show ?case
  proof (cases "i < n")
    case True
    then have "(i + 1) * 32 \<le> 32 * n" by simp
    then show ?thesis
      using Suc.IH [OF True] len D32 by simp
  next
    case False
    with Suc.prems have "i = n" by simp
    then show ?thesis using len D32 by (simp add: mult.commute)
  qed
qed

lemma Namespace_eq:
  assumes H32: "\<forall>m. length (H m) = 32" and c: "0 \<le> sint count"
    and fits: "32 * nat (sint count) \<le> maxAlloc" and ceiling: "maxAlloc < 2 ^ 63"
  shows "Namespace maxAlloc H name count =
     Inr (map (\<lambda>i. H (H name @ [of_nat i])) [0..<nat (sint count)])"
proof -
  from go_int_nonneg [OF c] obtain n
    where n: "sint count = int n" "count = of_nat n" "n < 2 ^ 63" .
  have nn: "nat (sint count) = n" by (simp add: n(1))
  let ?ns = "H name @ [0 :: byte]"
  let ?D = "\<lambda>i::nat. H (H name @ [of_nat i])"
  let ?ids0 = "replicate n (None :: (nat \<times> nat) option)"
  let ?buf0 = "replicate (32 * n) (0 :: byte)"
  have fit: "32 * n \<le> maxAlloc" using fits by (simp only: nn)
  have small: "32 * n < 2 ^ 63" using fit ceiling by simp
  have m1: "makeslice maxAlloc 24 count (None :: (nat \<times> nat) option) = Inr ?ids0"
    unfolding makeslice_def n(1) using fit by simp
  have s32: "sint (32 * count) = int (32 * n)"
    unfolding n(2) by (rule sint_times_32_small [OF small])
  have m2: "makeslice maxAlloc 1 (32 * count) (0 :: byte) = Inr ?buf0"
    unfolding makeslice_def s32 nat_int using fit by simp
  have seed: "copy (replicate 33 0) (hash_Sum H (Write New256 name) []) = ?ns"
    using H32 by (simp add: hash_Sum_def Write_def New256_def copy_seed)
  have t: "take 32 ?ns = H name" using H32 by simp
  from Namespace_loop_ok [OF H32 small, of 0 n ?ns ?buf0 ?ids0 "Write New256 name"] H32
  obtain ns' hash' where loop:
    "Namespace_loop H [0..<n] (?ids0, ?buf0, ?ns, Write New256 name) =
       Inr (map (\<lambda>i. Some (i * 32, (i + 1) * 32)) [0..<n], concat (map ?D [0..<n]), ns', hash')"
    unfolding t by auto
  have "map (slice_of (concat (map ?D [0..<n]))) (map (\<lambda>i. Some (i * 32, (i + 1) * 32)) [0..<n])
      = map ?D [0..<n]"
    using concat_block [of ?D _ n] H32 by (simp add: slice_of_def)
  then show ?thesis
    unfolding Namespace_def m1 m2 nn using loop by (simp add: Let_def seed)
qed


lemma Namespace_too_large:
  assumes ceiling: "maxAlloc < 2 ^ 63" and c: "0 \<le> sint count"
    and big: "maxAlloc < 32 * nat (sint count)"
  shows "Namespace maxAlloc H name count = Inl MakesliceLenOutOfRange"
proof -
  from go_int_nonneg [OF c] obtain n
    where n: "sint count = int n" "count = of_nat n" "n < 2 ^ 63" .
  have nn: "nat (sint count) = n" by (simp add: n(1))
  have big': "maxAlloc < 32 * n" using big by (simp only: nn)
  show ?thesis
  proof (cases "maxAlloc < 24 * n")
    case True
    then show ?thesis
      unfolding Namespace_def makeslice_def n(1) by simp
  next
    case False
    then have m1: "makeslice maxAlloc 24 count (None :: (nat \<times> nat) option) =
        Inr (replicate n None)"
      unfolding makeslice_def n(1) by simp
    have m2: "makeslice maxAlloc 1 (32 * count) (0 :: byte) = Inl MakesliceLenOutOfRange"
    proof (cases "32 * n < 2 ^ 63")
      case True
      have "sint (32 * count) = int (32 * n)"
        unfolding n(2) by (rule sint_times_32_small [OF True])
      then show ?thesis
        unfolding makeslice_def using big' by (simp only: nat_int) simp
    next
      case F: False
      then have lo: "2 ^ 63 \<le> 32 * n" by simp
      have "24 * n < 2 ^ 63" using False ceiling by simp
      then have hi: "32 * n < 2 ^ 64" by simp
      have "sint (32 * count) < 0"
        unfolding n(2) by (rule sint_times_32_wraps [OF lo hi])
      then show ?thesis by (simp add: makeslice_def)
    qed
    show ?thesis unfolding Namespace_def m1 m2 by simp
  qed
qed

lemma byte_index_wrap: "i mod 256 = j mod 256 \<Longrightarrow> (of_nat i :: byte) = of_nat j"
  by (simp add: word_of_nat_eq_iff take_bit_eq_mod)

lemma byte_index_mod: "(of_nat (i mod 256) :: byte) = of_nat i"
  by (rule byte_index_wrap) simp

lemma fletcher_hash_32: "\<forall>m. length (fletcher_hash m) = 32"
  by (simp add: fletcher_hash_def split: prod.split)

section \<open>Claims\<close>

text \<open>
  C1. For all tree nodes \<open>a\<close> and \<open>b\<close>, \<open>Parent\<close> returns the digest of the stream made
  of the type tag 1, the minimal varint of \<open>a.Size + b.Size\<close> (added as 64-bit unsigned
  values), the hash of the left child and the hash of the right child. The left child is
  the node with the smaller \<open>Index\<close>, in whichever order the two were passed; when the
  indices are equal nothing is swapped and the first argument is the left child.
\<close>

theorem Parent_digest:
  "(Index a < Index b \<longrightarrow>
      Parent H a b = Inr (H ([1] @ uvarint (unat (Size a + Size b)) @ Hash a @ Hash b)) \<and>
      Parent H b a = Inr (H ([1] @ uvarint (unat (Size a + Size b)) @ Hash a @ Hash b))) \<and>
   (Index a = Index b \<longrightarrow>
      Parent H a b = Inr (H ([1] @ uvarint (unat (Size a + Size b)) @ Hash a @ Hash b)))"
  by (auto simp: Parent_eq add.commute)

theorem Parent_digest_witness:
  "Index \<lparr>Index = 1, Hash = [0xAA], Size = 100\<rparr> < Index \<lparr>Index = 2, Hash = [0xBB], Size = 200\<rparr> \<and>
   Parent fletcher_hash \<lparr>Index = 1, Hash = [0xAA], Size = 100\<rparr> \<lparr>Index = 2, Hash = [0xBB], Size = 200\<rparr>
     = Inr (fletcher_hash [1, 0xAC, 0x02, 0xAA, 0xBB]) \<and>
   Parent fletcher_hash \<lparr>Index = 2, Hash = [0xBB], Size = 200\<rparr> \<lparr>Index = 1, Hash = [0xAA], Size = 100\<rparr>
     = Inr (fletcher_hash [1, 0xAC, 0x02, 0xAA, 0xBB]) \<and>
   Index \<lparr>Index = 5, Hash = [0xBB], Size = 200\<rparr> = Index \<lparr>Index = 5, Hash = [0xAA], Size = 100\<rparr> \<and>
   Parent fletcher_hash \<lparr>Index = 5, Hash = [0xBB], Size = 200\<rparr> \<lparr>Index = 5, Hash = [0xAA], Size = 100\<rparr>
     = Inr (fletcher_hash [1, 0xAC, 0x02, 0xBB, 0xAA])"
proof -
  have e300: "uvarint 300 = [0xAC, 0x02]"
    by (simp add: uvarint_big uvarint_small)
  show ?thesis
    using
      Parent_digest [of "\<lparr>Index = 1, Hash = [0xAA], Size = 100\<rparr>"
        "\<lparr>Index = 2, Hash = [0xBB], Size = 200\<rparr>" fletcher_hash]
      Parent_digest [of "\<lparr>Index = 5, Hash = [0xBB], Size = 200\<rparr>"
        "\<lparr>Index = 5, Hash = [0xAA], Size = 100\<rparr>" fletcher_hash]
    by (simp add: e300)
qed

text \<open>
  C2. For every sequence of roots, \<open>Tree\<close> called with a \<open>nil\<close> output buffer returns the
  digest of the stream made of the type tag 2 followed, for each root in the order given
  (nothing is sorted), by the root's hash, the minimal varint of its \<open>Index\<close> and the
  minimal varint of its \<open>Size\<close>. For the empty sequence it is the digest of the single
  byte 2.
\<close>

theorem Tree_digest:
  "Tree H roots None =
     Inr (H ([2] @ concat (map (\<lambda>r. Hash r @ uvarint (unat (Index r)) @ uvarint (unat (Size r)))
                            roots))) \<and>
   Tree H [] None = Inr (H [2])"
  by (simp add: Tree_eq)

theorem Tree_digest_witness:
  "Tree fletcher_hash
     [\<lparr>Index = 0, Hash = [1, 2, 3, 4, 5, 6, 7, 8], Size = 32\<rparr>,
      \<lparr>Index = 1, Hash = [9, 10, 11, 12, 13, 14, 15, 16], Size = 64\<rparr>] None
     = Inr (fletcher_hash ([2] @ [1, 2, 3, 4, 5, 6, 7, 8] @ [0] @ [32] @
                     [9, 10, 11, 12, 13, 14, 15, 16] @ [1] @ [64])) \<and>
   Tree fletcher_hash [] None = Inr (fletcher_hash [2])"
  using Tree_digest [of fletcher_hash
      "[\<lparr>Index = 0, Hash = [1, 2, 3, 4, 5, 6, 7, 8], Size = 32\<rparr>,
        \<lparr>Index = 1, Hash = [9, 10, 11, 12, 13, 14, 15, 16], Size = 64\<rparr>]"]
  by (simp add: uvarint_small)

text \<open>
  C3. For every byte sequence \<open>data\<close> (a Go slice, so shorter than \<open>2^64\<close>), \<open>Data\<close>
  returns the digest of the stream made of the type tag 0, the minimal varint of
  \<open>len(data)\<close> and \<open>data\<close> itself; equal data give equal digests.
\<close>

theorem Data_digest:
  "length data < 2 ^ 64 \<Longrightarrow>
   Data H data = Inr (H ([0] @ uvarint (length data) @ data)) \<and>
   (\<forall>data'. data' = data \<longrightarrow> Data H data' = Data H data)"
proof -
  assume "length data < 2 ^ 64"
  then have "unat (of_nat (length data) :: uint64) = length data"
    by (simp add: unat_of_nat)
  then show ?thesis by (simp add: Data_eq)
qed

theorem Data_digest_witness:
  "length [0x61 :: byte] < 2 ^ 64 \<and>
   Data fletcher_hash [0x61] = Inr (fletcher_hash [0, 1, 0x61]) \<and>
   Data fletcher_hash [] = Inr (fletcher_hash [0, 0])"
  using Data_digest [of "[0x61]" fletcher_hash] Data_digest [of "[]" fletcher_hash]
  by (simp add: uvarint_small)




text \<open>
  C5. For all tree nodes with distinct \<open>Index\<close> fields, \<open>Parent\<close> gives the same bytes
  in both argument orders.
\<close>

theorem Parent_commutes:
  "Index a \<noteq> Index b \<Longrightarrow> Parent H a b = Parent H b a"
  by (auto simp: Parent_eq add.commute)

theorem Parent_commutes_witness:
  "Index \<lparr>Index = 7, Hash = [3, 4], Size = 10\<rparr> \<noteq> Index \<lparr>Index = 6, Hash = [5], Size = 20\<rparr> \<and>
   Parent fletcher_hash \<lparr>Index = 7, Hash = [3, 4], Size = 10\<rparr> \<lparr>Index = 6, Hash = [5], Size = 20\<rparr> =
   Parent fletcher_hash \<lparr>Index = 6, Hash = [5], Size = 20\<rparr> \<lparr>Index = 7, Hash = [3, 4], Size = 10\<rparr>"
  using Parent_commutes [of "\<lparr>Index = 7, Hash = [3, 4], Size = 10\<rparr>"
      "\<lparr>Index = 6, Hash = [5], Size = 20\<rparr>" fletcher_hash]
  by simp

text \<open>
  C6. For every public key, \<open>DiscoveryKey\<close> returns the digest of the 9 ASCII bytes of
  \<open>hypercore\<close> followed by the key. With a 32-byte digest function the result has exactly
  32 bytes, and equal keys give equal results.
\<close>

theorem DiscoveryKey_digest:
  "\<forall>m. length (H m) = 32 \<Longrightarrow>
   DiscoveryKey H publicKey = H (bytes_of_string ''hypercore'' @ publicKey) \<and>
   bytes_of_string ''hypercore'' = [0x68, 0x79, 0x70, 0x65, 0x72, 0x63, 0x6f, 0x72, 0x65] \<and>
   length (bytes_of_string ''hypercore'') = 9 \<and>
   length (DiscoveryKey H publicKey) = 32 \<and>
   (\<forall>pk. pk = publicKey \<longrightarrow> DiscoveryKey H pk = DiscoveryKey H publicKey)"
  by (simp add: DiscoveryKey_def New256_def Write_def hash_Sum_def bytes_of_string_def
      Hypercore_def)

theorem DiscoveryKey_digest_witness:
  "(\<forall>m. length (fletcher_hash m) = 32) \<and>
   DiscoveryKey fletcher_hash [1, 2, 3] =
     fletcher_hash [0x68, 0x79, 0x70, 0x65, 0x72, 0x63, 0x6f, 0x72, 0x65, 1, 2, 3] \<and>
   length (DiscoveryKey fletcher_hash [1, 2, 3]) = 32"
  using DiscoveryKey_digest [OF fletcher_hash_32, of "[1, 2, 3]"] fletcher_hash_32
  by simp




text \<open>
  C8. For every unsigned 64-bit \<open>x\<close>, \<open>WriteUvarint\<close> and \<open>writeUvarint\<close> append to the
  writer exactly the minimal little-endian base-128 encoding of \<open>x\<close>: it is the only
  byte sequence with the high bit set on all bytes but the last, whose 7-bit groups give
  \<open>x\<close>, and without a padding byte at the end. Values below 128 take one byte.
\<close>

theorem WriteUvarint_minimal_encoding:
  "WriteUvarint w x = Inr (w @ uvarint (unat x)) \<and>
   writeUvarint w x = Inr (w @ uvarint (unat x)) \<and>
   (\<forall>bs. minimal_uvarint bs (unat x) \<longleftrightarrow> bs = uvarint (unat x)) \<and>
   (x < 128 \<longrightarrow> length (uvarint (unat x)) = 1)"
  by (simp add: WriteUvarint_eq writeUvarint_eq minimal_uvarint_iff uvarint_small
      word_less_nat_alt)

theorem WriteUvarint_minimal_encoding_witness:
  "(5 :: uint64) < 128 \<and>
   WriteUvarint [7] 5 = Inr [7, 5] \<and> writeUvarint [7] 5 = Inr [7, 5] \<and>
   minimal_uvarint [5] 5 \<and> length [5 :: byte] = 1 \<and>
   WriteUvarint [7] 300 = Inr [7, 0xAC, 0x02] \<and> writeUvarint [7] 300 = Inr [7, 0xAC, 0x02] \<and>
   minimal_uvarint [0xAC, 0x02] 300"
proof -
  have e5: "uvarint (unat (5 :: uint64)) = [5]" by (simp add: uvarint_small)
  have e300: "uvarint (unat (300 :: uint64)) = [0xAC, 0x02]"
    by (simp add: uvarint_big uvarint_small)
  show ?thesis
    using WriteUvarint_minimal_encoding [of "[7]" 5]
      WriteUvarint_minimal_encoding [of "[7]" 300]
    unfolding e5 e300 by simp
qed

text \<open>
  C9. For every name and every \<open>count\<close> above 256, in the sequence \<open>Namespace\<close> returns,
  positions \<open>i\<close> and \<open>j\<close> below \<open>count\<close> that are congruent modulo 256 hold the same
  identifier: the index byte wraps (position \<open>i\<close> is hashed with the byte \<open>i mod 256\<close>),
  the sequence repeats with period 256 and is not pairwise distinct. The call returns
  whenever the buffer of \<open>32 * count\<close> bytes is within the allocation ceiling of the
  runtime; beyond it there is no sequence, the call panics in \<open>make\<close>.
\<close>

theorem Namespace_period_256:
  assumes "\<forall>m. length (H m) = 32" and "maxAlloc < 2 ^ 63" and "256 < sint count"
  shows "(\<forall>ids. Namespace maxAlloc H name count = Inr ids \<longrightarrow>
        length ids = nat (sint count) \<and>
        (\<forall>i j. i < nat (sint count) \<longrightarrow> j < nat (sint count) \<longrightarrow> i mod 256 = j mod 256 \<longrightarrow>
           ids ! i = ids ! j) \<and>
        (\<forall>i<nat (sint count). ids ! i = H (H name @ [of_nat (i mod 256)])) \<and>
        \<not> distinct ids) \<and>
     (32 * nat (sint count) \<le> maxAlloc \<longrightarrow>
        (\<exists>ids. Namespace maxAlloc H name count = Inr ids)) \<and>
     (maxAlloc < 32 * nat (sint count) \<longrightarrow>
        Namespace maxAlloc H name count = Inl MakesliceLenOutOfRange)"
proof -
  let ?n = "nat (sint count)"
  define ids where "ids = map (\<lambda>i. H (H name @ [of_nat i :: byte])) [0..<?n]"
  have c: "0 \<le> sint count" using assms(3) by simp
  have big: "Namespace maxAlloc H name count = Inl MakesliceLenOutOfRange"
    if "maxAlloc < 32 * ?n"
    by (rule Namespace_too_large [OF assms(2) c that])
  have eq: "Namespace maxAlloc H name count = Inr ids" if "32 * ?n \<le> maxAlloc"
    unfolding ids_def by (rule Namespace_eq [OF assms(1) c that assms(2)])
  have len: "length ids = ?n"
    by (simp add: ids_def)
  have nth: "ids ! i = H (H name @ [of_nat (i mod 256)])" if "i < ?n" for i
    using that by (simp add: ids_def byte_index_mod)
  have per: "ids ! i = ids ! j" if "i < ?n" "j < ?n" "i mod 256 = j mod 256" for i j
    using that by (simp add: nth)
  have n0: "0 < length ids" and n256: "256 < length ids"
    using assms(3) len by simp_all
  have same: "ids ! 0 = ids ! 256"
    by (rule per) (use n0 n256 len in simp_all)
  have nd: "\<not> distinct ids"
  proof
    assume "distinct ids"
    from nth_eq_iff_index_eq [OF this n0 n256] same show False by simp
  qed
  have ret: "ids' = ids" if "Namespace maxAlloc H name count = Inr ids'" for ids'
  proof (cases "32 * ?n \<le> maxAlloc")
    case True
    with eq that show ?thesis by simp
  next
    case False
    with big that show ?thesis by simp
  qed
  show ?thesis
    using ret eq big len per nth nd by blast
qed

theorem Namespace_period_256_witness:
  "(\<forall>m. length (fletcher_hash m) = 32) \<and> (2 ^ 48 :: nat) < 2 ^ 63 \<and>
   256 < sint (600 :: go_int) \<and> 32 * nat (sint (600 :: go_int)) \<le> 2 ^ 48 \<and>
   (\<exists>ids. Namespace (2 ^ 48) fletcher_hash [1] 600 = Inr ids \<and> length ids = 600 \<and>
      ids ! 3 = ids ! 259 \<and> ids ! 259 = ids ! 515 \<and>
      ids ! 515 = fletcher_hash (fletcher_hash [1] @ [3]) \<and> \<not> distinct ids) \<and>
   256 < sint (2 ^ 44 :: go_int) \<and> (2 ^ 48 :: nat) < 32 * nat (sint (2 ^ 44 :: go_int)) \<and>
   Namespace (2 ^ 48) fletcher_hash [1] (2 ^ 44) = Inl MakesliceLenOutOfRange"
proof -
  have c: "(2 ^ 48 :: nat) < 2 ^ 63" by simp
  have s600: "sint (600 :: go_int) = 600" by simp
  have s44: "sint (2 ^ 44 :: go_int) = 2 ^ 44" by simp
  have h600: "256 < sint (600 :: go_int)" by (simp add: s600)
  have h44: "256 < sint (2 ^ 44 :: go_int)" by (simp add: s44)
  have f600: "32 * nat (sint (600 :: go_int)) \<le> 2 ^ 48" by (simp add: s600)
  have f44: "(2 ^ 48 :: nat) < 32 * nat (sint (2 ^ 44 :: go_int))" by (simp add: s44)
  have n600: "nat (sint (600 :: go_int)) = 600" by (simp add: s600)
  note A = Namespace_period_256 [OF fletcher_hash_32 c h600, of "[1]"]
  note B = Namespace_period_256 [OF fletcher_hash_32 c h44, of "[1]"]
  from A f600 obtain ids where ids: "Namespace (2 ^ 48) fletcher_hash [1] 600 = Inr ids"
    by blast
  with A have P: "length ids = 600"
    "\<And>i j. i < 600 \<Longrightarrow> j < 600 \<Longrightarrow> i mod 256 = j mod 256 \<Longrightarrow> ids ! i = ids ! j"
    "\<And>i. i < 600 \<Longrightarrow> ids ! i = fletcher_hash (fletcher_hash [1] @ [of_nat (i mod 256)])"
    "\<not> distinct ids"
    unfolding n600 by blast+
  have e1: "ids ! 3 = ids ! 259" by (rule P(2)) simp_all
  have e2: "ids ! 259 = ids ! 515" by (rule P(2)) simp_all
  have e3: "ids ! 515 = fletcher_hash (fletcher_hash [1] @ [3])"
    using P(3) [of 515] by simp
  have C: "Namespace (2 ^ 48) fletcher_hash [1] (2 ^ 44) = Inl MakesliceLenOutOfRange"
    using B f44 by blast
  show ?thesis
    using fletcher_hash_32 c h600 f600 ids P(1) e1 e2 e3 P(4) h44 f44 C by blast
qed

text \<open>
  C10. For every sequence of roots and every output buffer, \<open>nil\<close> or not and whatever
  it holds, \<open>Tree\<close> returns the bytes it returns for a \<open>nil\<close> buffer: the contents of the
  buffer never reach the digest.
\<close>

theorem Tree_out_irrelevant:
  "Tree H roots out = Tree H roots None"
  by (simp add: Tree_eq)

theorem Tree_out_irrelevant_witness:
  "Tree fletcher_hash [\<lparr>Index = 0, Hash = [1, 2], Size = 32\<rparr>] (Some [9, 9, 9]) =
   Tree fletcher_hash [\<lparr>Index = 0, Hash = [1, 2], Size = 32\<rparr>] None"
  using Tree_out_irrelevant [of fletcher_hash "[\<lparr>Index = 0, Hash = [1, 2], Size = 32\<rparr>]" "Some [9, 9, 9]"]
  by simp

end
